theory Spec2Isabelle
  imports Complex_Main "HOL-Library.AList"
begin

text \<open>
  The utility module of the application: the recursive state diff \<open>stateChanged\<close>
  and the scheduling wrappers \<open>debounce\<close>, \<open>throttle\<close> and \<open>debouncePress\<close>,
  embedded as functions of HOL, with the properties of their specification.
\<close>

section \<open>State diff engine: \<open>stateChanged\<close>\<close>

subsection \<open>JavaScript values\<close>

text \<open>
  The values \<open>stateChanged\<close> inspects are JSON-like: primitives, plain objects and
  arrays. The only operation applied to a primitive is strict (in)equality, so a
  number is carried by its numeric value; \<open>NaN\<close> is kept apart because
  \<open>NaN !== NaN\<close>. Objects and arrays have an identity (the natural number tag),
  which is what \<open>===\<close> compares; an object is its list of own enumerable
  properties in \<open>Object.keys\<close> order, an array is its list of slots, \<open>None\<close>
  being a hole. Property names are ordinary names: inherited properties and the
  name \<open>__proto__\<close> are left out.
\<close>

datatype prim = Undefined | Null | Boolean bool | Number real | NaN | String string

datatype val =
    Prim prim
  | Obj nat "(string \<times> val) list"
  | Arr nat "val option list"

text \<open>
  The object \<open>stateChanged\<close> returns is built by the call itself, while the
  values it stores are the caller's own (stored by reference). \<open>Whole v\<close> is a
  value of \<open>prev\<close> or \<open>current\<close> stored as it is, \<open>Changes\<close> the
  object a recursive call returned, \<open>ArrayChanges\<close> the local array
  \<open>arrayChanges\<close>, whose slots may be holes.
\<close>

datatype patch =
    Whole val
  | Changes "(string \<times> patch) list"
  | ArrayChanges "patch option list"

text \<open>\<open>isObject\<close>: not null, of type object, and not an array.\<close>

fun isObject :: "val \<Rightarrow> bool" where
  "isObject (Obj _ _) = True"
| "isObject _ = False"

text \<open>\<open>Array.isArray\<close>.\<close>

fun isArray :: "val \<Rightarrow> bool" where
  "isArray (Arr _ _) = True"
| "isArray _ = False"

text \<open>The properties of an object and the slots of an array.\<close>

fun props :: "val \<Rightarrow> (string \<times> val) list" where
  "props (Obj _ fs) = fs"
| "props _ = []"

fun elems :: "val \<Rightarrow> val option list" where
  "elems (Arr _ xs) = xs"
| "elems _ = []"

text \<open>
  \<open>a === b\<close>: primitives by value (never equal when \<open>NaN\<close>), objects and
  arrays by identity, values of different kinds never.
\<close>

fun strictEq :: "val \<Rightarrow> val \<Rightarrow> bool" where
  "strictEq (Prim p) (Prim q) = (p = q \<and> p \<noteq> NaN)"
| "strictEq (Obj r _) (Obj s _) = (r = s)"
| "strictEq (Arr r _) (Arr s _) = (r = s)"
| "strictEq _ _ = False"

text \<open>
  \<open>obj[key]\<close> reads \<open>undefined\<close> for a missing property, \<open>arr[i]\<close> reads
  \<open>undefined\<close> in a hole or past the end, and \<open>arr[i] = v\<close> past the end
  extends the array with holes.
\<close>

definition getProp :: "(string \<times> val) list \<Rightarrow> string \<Rightarrow> val" where
  "getProp obj key = (case map_of obj key of None \<Rightarrow> Prim Undefined | Some v \<Rightarrow> v)"

definition getIndex :: "val option list \<Rightarrow> nat \<Rightarrow> val" where
  "getIndex xs i =
     (if i < length xs then (case xs ! i of None \<Rightarrow> Prim Undefined | Some v \<Rightarrow> v)
      else Prim Undefined)"

definition setIndex :: "'a option list \<Rightarrow> nat \<Rightarrow> 'a \<Rightarrow> 'a option list" where
  "setIndex xs i v =
     (if i < length xs then xs[i := Some v]
      else xs @ replicate (i - length xs) None @ [Some v])"

subsection \<open>The size of a record, for the termination of the recursion\<close>

definition objSize :: "(string \<times> val) list \<Rightarrow> nat" where
  "objSize fs = size (Obj 0 fs)"

lemma size_lookup_lt:
  "map_of fs k = Some v \<Longrightarrow> size v < objSize fs"
proof -
  assume "map_of fs k = Some v"
  then have "(k, v) \<in> set fs" by (rule map_of_SomeD)
  then have "size_prod (\<lambda>x. 0) size (k, v) \<le> size_list (size_prod (\<lambda>x. 0) size) fs"
    by (rule size_list_estimation') simp
  then show ?thesis by (simp add: objSize_def)
qed

lemma size_getProp_array:
  "isArray (getProp fs k) \<Longrightarrow> size (getProp fs k) < objSize fs"
  by (auto simp: getProp_def size_lookup_lt split: option.splits)

lemma size_getProp_object:
  "isObject (getProp fs k) \<Longrightarrow> objSize (props (getProp fs k)) < objSize fs"
proof -
  assume a: "isObject (getProp fs k)"
  then obtain r gs where g: "getProp fs k = Obj r gs" by (cases "getProp fs k") simp_all
  then have "map_of fs k = Some (Obj r gs)"
    by (auto simp: getProp_def split: option.splits)
  then have "size (Obj r gs) < objSize fs" by (rule size_lookup_lt)
  then show ?thesis by (simp add: g objSize_def)
qed

lemma size_getIndex_object:
  "isObject (getIndex (elems cv) i) \<Longrightarrow> objSize (props (getIndex (elems cv) i)) < size cv"
proof -
  assume a: "isObject (getIndex (elems cv) i)"
  then obtain r gs where g: "getIndex (elems cv) i = Obj r gs"
    by (cases "getIndex (elems cv) i") simp_all
  then have i: "i < length (elems cv)" and n: "elems cv ! i = Some (Obj r gs)"
    by (auto simp: getIndex_def split: if_splits option.splits)
  then have "Some (Obj r gs) \<in> set (elems cv)" by (metis nth_mem)
  then have "size_option size (Some (Obj r gs)) \<le> size_list (size_option size) (elems cv)"
    by (rule size_list_estimation') simp
  moreover have "size_list (size_option size) (elems cv) < size cv"
    using i by (cases cv) simp_all
  ultimately show ?thesis by (simp add: g objSize_def)
qed

subsection \<open>The diff\<close>

text \<open>
  \<open>stateChanged\<close> runs \<open>Object.keys(current).forEach\<close>; \<open>keyStep\<close> is the
  callback of that loop, with the object \<open>changes\<close> under construction as its
  last argument, and \<open>itemStep\<close> is the callback of
  \<open>prevValue.forEach\<close>, which skips the holes of \<open>prevValue\<close>, with the
  array \<open>arrayChanges\<close> under construction as its last argument.
\<close>

function stateChanged :: "(string \<times> val) list \<Rightarrow> (string \<times> val) list \<Rightarrow> (string \<times> patch) list"
  and keyStep :: "(string \<times> val) list \<Rightarrow> (string \<times> val) list \<Rightarrow> string \<Rightarrow> (string \<times> patch) list \<Rightarrow> (string \<times> patch) list"
  and itemStep :: "val \<Rightarrow> val \<Rightarrow> nat \<Rightarrow> patch option list \<Rightarrow> patch option list"
where
  "stateChanged prev current =
     fold (\<lambda>key changes. keyStep prev current key changes) (map fst current) []"
| "keyStep prev current key changes =
     (let prevValue = getProp prev key; currentValue = getProp current key in
      if isArray prevValue \<and> isArray currentValue then
        if length (elems prevValue) \<noteq> length (elems currentValue) then
          AList.update key (Whole currentValue) changes
        else
          let arrayChanges =
                fold (\<lambda>index arrayChanges. itemStep prevValue currentValue index arrayChanges)
                  [0..<length (elems prevValue)] []
          in if length arrayChanges > 0
             then AList.update key (ArrayChanges arrayChanges) changes
             else changes
      else if isObject prevValue \<and> isObject currentValue then
        let nestedChanges = stateChanged (props prevValue) (props currentValue) in
        if length nestedChanges > 0
        then AList.update key (Changes nestedChanges) changes
        else changes
      else if \<not> strictEq currentValue prevValue then
        AList.update key (Whole currentValue) changes
      else changes)"
| "itemStep prevValue currentValue index arrayChanges =
     (case elems prevValue ! index of
        None \<Rightarrow> arrayChanges
      | Some prevItem \<Rightarrow>
          let currentItem = getIndex (elems currentValue) index in
          if isObject prevItem \<and> isObject currentItem then
            let itemChanges = stateChanged (props prevItem) (props currentItem) in
            if length itemChanges > 0
            then setIndex arrayChanges index (Changes itemChanges)
            else arrayChanges
          else if \<not> strictEq prevItem currentItem then
            setIndex arrayChanges index (Whole currentItem)
          else
            setIndex arrayChanges index (Whole prevItem))"
  by pat_completeness auto
termination
  apply (relation "measure (\<lambda>x. case x of
            Inl (prev, current) \<Rightarrow> 3 * objSize current + 2
          | Inr (Inl (prev, current, key, changes)) \<Rightarrow> 3 * objSize current + 1
          | Inr (Inr (prevValue, currentValue, index, arrayChanges)) \<Rightarrow> 3 * size currentValue)")
       apply (auto dest: size_getProp_array size_getProp_object size_getIndex_object)
  done

declare stateChanged.simps [simp del] keyStep.simps [simp del] itemStep.simps [simp del]

section \<open>Scheduling primitives: \<open>debounce\<close>, \<open>throttle\<close>, \<open>debouncePress\<close>\<close>

subsection \<open>The host: timers and the clock\<close>

text \<open>
  The wrappers run on an event loop. The host keeps the armed timers, each with its
  handle, the clock reading from which it is due and the arguments its callback has
  captured. \<open>setTimeout\<close> arms a timer under a fresh handle, \<open>clearTimeout\<close>
  disarms one (and does nothing for a handle that is not armed), and the host runs the
  callback of a timer only once it is due, disarming it as it does. Times are
  milliseconds, as \<open>Date.now()\<close> gives them, and the host's timers run on the
  same clock. A handle is truthy, so a variable that holds a handle is \<open>Some\<close>
  and \<open>undefined\<close> is \<open>None\<close>. The timers are those of the one wrapper under
  study, whose variables the state record holds next to them.
\<close>

type_synonym handle = nat

record 'a host =
  pending :: "(handle \<times> int \<times> 'a) list"
  nextHandle :: handle

definition setTimeout :: "int \<Rightarrow> 'a \<Rightarrow> int \<Rightarrow> ('a, 'z) host_scheme \<Rightarrow> handle \<times> ('a, 'z) host_scheme" where
  "setTimeout now param ms h =
     (nextHandle h,
      h\<lparr>pending := pending h @ [(nextHandle h, now + ms, param)],
        nextHandle := Suc (nextHandle h)\<rparr>)"

definition clearTimeout :: "handle \<Rightarrow> ('a, 'z) host_scheme \<Rightarrow> ('a, 'z) host_scheme" where
  "clearTimeout t h = h\<lparr>pending := filter (\<lambda>e. fst e \<noteq> t) (pending h)\<rparr>"

definition dueTimer :: "int \<Rightarrow> handle \<Rightarrow> ('a, 'z) host_scheme \<Rightarrow> 'a option" where
  "dueTimer now t h =
     (case map_of (pending h) t of
        None \<Rightarrow> None
      | Some (due, param) \<Rightarrow> if due \<le> now then Some param else None)"

subsection \<open>Functions, exceptions and turns\<close>

text \<open>
  The value passed as \<open>func\<close> is a function or anything else; calling what is not a
  function raises \<open>TypeError\<close>. A function is taken to return normally. A turn of
  the event loop is a call of the wrapper with the clock reading and the arguments, or
  the host running the callback of a timer; it yields the new state, the arguments
  \<open>func\<close> was executed with during the turn, and what the turn returned or threw
  (\<open>Returned None\<close> is \<open>undefined\<close>).
\<close>

datatype ('a, 'r) jsfun = Function "'a \<Rightarrow> 'r" | NotCallable

datatype error = TypeError

datatype 'r outcome = Returned "'r option" | Threw error

fun invoke :: "('a, 'r) jsfun \<Rightarrow> 'a \<Rightarrow> error + 'r" where
  "invoke (Function f) param = Inr (f param)"
| "invoke NotCallable param = Inl TypeError"

fun isFunction :: "('a, 'r) jsfun \<Rightarrow> bool" where
  "isFunction (Function f) = True"
| "isFunction NotCallable = False"

datatype 'a event = Call int 'a | Fire int handle

text \<open>
  The variables a wrapper closes over, next to the host: \<open>func\<close>, \<open>timer\<close> and
  \<open>result\<close> in all of them, \<open>wait\<close> in \<open>debounce\<close>, \<open>delay\<close> and \<open>last\<close>
  (here \<open>last_time\<close>) in \<open>throttle\<close>, \<open>lastArgs\<close> and \<open>lastCallTime\<close> in
  \<open>debouncePress\<close>, whose \<open>timerId\<close> is the field \<open>timer\<close>.
\<close>

record ('a, 'r) wrapper = "'a host" +
  func :: "('a, 'r) jsfun"
  timer :: "handle option"
  result :: "'r option"

record ('a, 'r) debounced = "('a, 'r) wrapper" +
  wait :: int

record ('a, 'r) throttled = "('a, 'r) wrapper" +
  delay :: int
  last_time :: int

record ('a, 'r) pressed = "('a, 'r) debounced" +
  lastArgs :: "'a option"
  lastCallTime :: "int option"

subsection \<open>\<open>debounce\<close>\<close>

text \<open>
  \<open>debounce(func, wait = 250)\<close> checks nothing and returns the wrapper. The wrapper
  clears the timer it holds, arms a new one whose callback stores \<open>func(...param)\<close>
  in \<open>result\<close>, and returns \<open>result\<close>.
\<close>

definition debounce :: "('a, 'r) jsfun \<Rightarrow> int option \<Rightarrow> error + ('a, 'r) debounced" where
  "debounce f w =
     Inr \<lparr>pending = [], nextHandle = 1, func = f, timer = None, result = None,
          wait = (case w of None \<Rightarrow> 250 | Some ms \<Rightarrow> ms)\<rparr>"

definition debounced_call :: "int \<Rightarrow> 'a \<Rightarrow> ('a, 'r) debounced \<Rightarrow> ('a, 'r) debounced \<times> 'a list \<times> 'r outcome" where
  "debounced_call now param s =
     (let s1 = (case timer s of None \<Rightarrow> s | Some t \<Rightarrow> clearTimeout t s);
          (t, s2) = setTimeout now param (wait s1) s1;
          s3 = s2\<lparr>timer := Some t\<rparr>
      in (s3, [], Returned (result s3)))"

definition debounced_fire :: "int \<Rightarrow> handle \<Rightarrow> ('a, 'r) debounced \<Rightarrow> ('a, 'r) debounced \<times> 'a list \<times> 'r outcome" where
  "debounced_fire now t s =
     (case dueTimer now t s of
        None \<Rightarrow> (s, [], Returned None)
      | Some param \<Rightarrow>
          let s1 = clearTimeout t s in
          (case invoke (func s1) param of
             Inl e \<Rightarrow> (s1, [], Threw e)
           | Inr r \<Rightarrow> (s1\<lparr>result := Some r\<rparr>, [param], Returned None)))"

fun debounced_step :: "'a event \<Rightarrow> ('a, 'r) debounced \<Rightarrow> ('a, 'r) debounced \<times> 'a list \<times> 'r outcome" where
  "debounced_step (Call now param) s = debounced_call now param s"
| "debounced_step (Fire now t) s = debounced_fire now t s"

fun debounced_run :: "'a event list \<Rightarrow> ('a, 'r) debounced \<Rightarrow> ('a, 'r) debounced \<times> 'a list" where
  "debounced_run [] s = (s, [])"
| "debounced_run (e # es) s =
     (let (s1, xs, out) = debounced_step e s;
          (s2, ys) = debounced_run es s1
      in (s2, xs @ ys))"

subsection \<open>\<open>throttle\<close>\<close>

text \<open>
  \<open>throttle(func, delay)\<close> checks nothing either. The wrapper executes \<open>func\<close> at
  once when \<open>delay - (now - last) \<le> 0\<close>, clearing the timer it holds; otherwise it
  arms a timer for the remaining time if \<open>timer\<close> is still \<open>undefined\<close>, with a
  callback that closes over the \<open>param\<close> of this very call. No statement assigns
  \<open>undefined\<close> to \<open>timer\<close> again.
\<close>

definition throttle :: "('a, 'r) jsfun \<Rightarrow> int \<Rightarrow> error + ('a, 'r) throttled" where
  "throttle f d =
     Inr \<lparr>pending = [], nextHandle = 1, func = f, timer = None, result = None,
          delay = d, last_time = 0\<rparr>"

definition throttled_call :: "int \<Rightarrow> 'a \<Rightarrow> ('a, 'r) throttled \<Rightarrow> ('a, 'r) throttled \<times> 'a list \<times> 'r outcome" where
  "throttled_call now param s =
     (let wait = delay s - (now - last_time s) in
      if wait \<le> 0 then
        (let s1 = s\<lparr>last_time := now\<rparr> in
         case invoke (func s1) param of
           Inl e \<Rightarrow> (s1, [], Threw e)
         | Inr r \<Rightarrow>
             let s2 = s1\<lparr>result := Some r\<rparr>;
                 s3 = (case timer s2 of None \<Rightarrow> s2 | Some t \<Rightarrow> clearTimeout t s2)
             in (s3, [param], Returned (result s3)))
      else
        (let s1 = (if timer s = None
                   then (let (t, s') = setTimeout now param wait s in s'\<lparr>timer := Some t\<rparr>)
                   else s)
         in (s1, [], Returned (result s1))))"

definition throttled_fire :: "int \<Rightarrow> handle \<Rightarrow> ('a, 'r) throttled \<Rightarrow> ('a, 'r) throttled \<times> 'a list \<times> 'r outcome" where
  "throttled_fire now t s =
     (case dueTimer now t s of
        None \<Rightarrow> (s, [], Returned None)
      | Some param \<Rightarrow>
          let s1 = clearTimeout t s;
              s2 = s1\<lparr>last_time := now\<rparr>
          in (case invoke (func s2) param of
                Inl e \<Rightarrow> (s2, [], Threw e)
              | Inr r \<Rightarrow> (s2\<lparr>result := Some r\<rparr>, [param], Returned None)))"

fun throttled_step :: "'a event \<Rightarrow> ('a, 'r) throttled \<Rightarrow> ('a, 'r) throttled \<times> 'a list \<times> 'r outcome" where
  "throttled_step (Call now param) s = throttled_call now param s"
| "throttled_step (Fire now t) s = throttled_fire now t s"

fun throttled_run :: "'a event list \<Rightarrow> ('a, 'r) throttled \<Rightarrow> ('a, 'r) throttled \<times> 'a list" where
  "throttled_run [] s = (s, [])"
| "throttled_run (e # es) s =
     (let (s1, xs, out) = throttled_step e s;
          (s2, ys) = throttled_run es s1
      in (s2, xs @ ys))"

subsection \<open>\<open>debouncePress\<close>: the check at wrap time\<close>

text \<open>
  \<open>debouncePress(func, wait = 250)\<close> declares its variables, throws
  \<open>TypeError("Expected a function")\<close> when \<open>typeof func !== "function"\<close>, and
  otherwise returns its wrapper, whose variables start as below.
\<close>

definition debouncePress :: "('a, 'r) jsfun \<Rightarrow> int option \<Rightarrow> error + ('a, 'r) pressed" where
  "debouncePress f w =
     (if \<not> isFunction f then Inl TypeError
      else Inr \<lparr>pending = [], nextHandle = 1, func = f, timer = None, result = None,
                wait = (case w of None \<Rightarrow> 250 | Some ms \<Rightarrow> ms),
                lastArgs = None, lastCallTime = None\<rparr>)"

section \<open>Notions the properties are stated with\<close>

text \<open>
  For the sequences of a diff: what the specification says is stored at one index
  (nothing for a hole of \<open>prev\<close> or for two records without a difference, the
  sub-patch for two records that differ, the new element for unequal elements and the
  old one for equal elements), the entries of all indices, and the array that holds
  them, which ends at the last index stored.
\<close>

definition spec_entry :: "val option \<Rightarrow> val \<Rightarrow> patch option" where
  "spec_entry prevSlot currentItem =
     (case prevSlot of
        None \<Rightarrow> None
      | Some prevItem \<Rightarrow>
          if isObject prevItem \<and> isObject currentItem then
            (if stateChanged (props prevItem) (props currentItem) = [] then None
             else Some (Changes (stateChanged (props prevItem) (props currentItem))))
          else if strictEq prevItem currentItem then Some (Whole prevItem)
          else Some (Whole currentItem))"

definition spec_entries :: "val option list \<Rightarrow> val option list \<Rightarrow> patch option list" where
  "spec_entries ps cs = map (\<lambda>i. spec_entry (ps ! i) (getIndex cs i)) [0..<length ps]"

definition upToLastStored :: "'a option list \<Rightarrow> 'a option list" where
  "upToLastStored xs = rev (dropWhile (\<lambda>x. x = None) (rev xs))"

text \<open>What \<open>keyStep\<close> stores under its key, if anything.\<close>

definition keyEntry :: "(string \<times> val) list \<Rightarrow> (string \<times> val) list \<Rightarrow> string \<Rightarrow> patch option" where
  "keyEntry prev current key = map_of (keyStep prev current key []) key"

text \<open>
  For the event loop: the arguments of the calls of a history, the latest call, the
  clock reading of an event, and the calls that arrive once \<open>delay\<close> has elapsed since
  the last execution (each of them an execution).
\<close>

fun callArgs :: "'a event list \<Rightarrow> 'a list" where
  "callArgs [] = []"
| "callArgs (Call now p # es) = p # callArgs es"
| "callArgs (Fire now t # es) = callArgs es"

fun lastCall :: "(int \<times> 'a) option \<Rightarrow> 'a event list \<Rightarrow> (int \<times> 'a) option" where
  "lastCall c [] = c"
| "lastCall c (Call now p # es) = lastCall (Some (now, p)) es"
| "lastCall c (Fire now t # es) = lastCall c es"

fun time :: "'a event \<Rightarrow> int" where
  "time (Call now p) = now"
| "time (Fire now t) = now"

fun isCall :: "'a event \<Rightarrow> bool" where
  "isCall (Call now p) = True"
| "isCall (Fire now t) = False"

fun onTime :: "int \<Rightarrow> int \<Rightarrow> 'a event list \<Rightarrow> 'a list" where
  "onTime d l [] = []"
| "onTime d l (Call now p # es) =
     (if d - (now - l) \<le> 0 then p # onTime d now es else onTime d l es)"
| "onTime d l (Fire now t # es) = onTime d l es"

text \<open>
  Invariants: every armed timer is the one the variable \<open>timer\<close> holds; the one
  armed timer of a debounced function carries the latest call; and, during a burst
  shorter than \<open>wait\<close>, that timer is armed and not yet due.
\<close>

definition owned :: "('a, 'r, 'z) wrapper_scheme \<Rightarrow> bool" where
  "owned s = (\<forall>e\<in>set (pending s). timer s = Some (fst e))"

definition latest :: "(int \<times> 'a) option \<Rightarrow> ('a, 'r) debounced \<Rightarrow> bool" where
  "latest c s =
     (pending s = [] \<or>
      (case c of None \<Rightarrow> False
       | Some (now, p) \<Rightarrow> timer s \<noteq> None \<and> pending s = [(the (timer s), now + wait s, p)]))"

definition quiet :: "int \<Rightarrow> int \<Rightarrow> (int \<times> 'a) option \<Rightarrow> ('a, 'r) debounced \<Rightarrow> bool" where
  "quiet t0 len c s =
     (case c of
        None \<Rightarrow> pending s = []
      | Some (tc, p) \<Rightarrow>
          t0 \<le> tc \<and> tc \<le> t0 + len \<and> timer s \<noteq> None \<and> Suc (the (timer s)) = nextHandle s
          \<and> pending s = [(the (timer s), tc + wait s, p)])"

section \<open>Properties of \<open>stateChanged\<close>\<close>

subsection \<open>The keys of a patch\<close>

lemma keyStep_keys:
  "fst ` set (keyStep prev current key changes) \<subseteq> insert key (fst ` set changes)"
  by (auto simp: keyStep.simps Let_def dom_update)

lemma fold_keyStep_keys:
  "fst ` set (fold (keyStep prev current) ks changes) \<subseteq> set ks \<union> fst ` set changes"
proof (induction ks arbitrary: changes)
  case Nil
  show ?case by simp
next
  case (Cons k ks)
  have "fst ` set (fold (keyStep prev current) ks (keyStep prev current k changes))
          \<subseteq> set ks \<union> fst ` set (keyStep prev current k changes)"
    by (rule Cons.IH)
  also have "\<dots> \<subseteq> set ks \<union> insert k (fst ` set changes)"
    using keyStep_keys [of prev current k changes] by blast
  finally show ?case by auto
qed

text \<open>
  C6: every key of the patch is a key of \<open>current\<close>; a key that only \<open>prev\<close>
  has is never reported, whatever its value.
\<close>

theorem stateChanged_keys_of_current:
  "set (map fst (stateChanged prev current)) \<subseteq> set (map fst current)"
  using fold_keyStep_keys [of prev current "map fst current" "[]"]
  by (simp add: stateChanged.simps)

theorem stateChanged_keys_of_current_witness:
  "set (map fst (stateChanged [(''a'', Prim (Number 1)), (''b'', Prim (Number 2))]
                              [(''a'', Prim (Number 3))])) \<subseteq> {''a''}
   \<and> stateChanged [(''a'', Prim (Number 1)), (''b'', Prim (Number 2))]
                     [(''a'', Prim (Number 3))] = [(''a'', Whole (Prim (Number 3)))]"
  using stateChanged_keys_of_current
          [of "[(''a'', Prim (Number 1)), (''b'', Prim (Number 2))]" "[(''a'', Prim (Number 3))]"]
  by (simp add: stateChanged.simps keyStep.simps getProp_def)


subsection \<open>What is stored under a key\<close>

lemma keyStep_keyEntry:
  "keyStep prev current key changes =
     (case keyEntry prev current key of None \<Rightarrow> changes | Some v \<Rightarrow> AList.update key v changes)"
  by (simp add: keyEntry_def keyStep.simps Let_def)

lemma map_of_fold_keyStep:
  "map_of (fold (keyStep prev current) ks changes) k =
     (if k \<in> set ks
      then (case keyEntry prev current k of None \<Rightarrow> map_of changes k | Some v \<Rightarrow> Some v)
      else map_of changes k)"
proof (induction ks arbitrary: changes)
  case Nil
  show ?case by simp
next
  case (Cons a ks)
  show ?case
    by (simp add: Cons.IH keyStep_keyEntry [of prev current a changes] update_conv'
          split: option.splits)
qed

lemma map_of_stateChanged:
  "map_of (stateChanged prev current) k =
     (if k \<in> fst ` set current then keyEntry prev current k else None)"
  by (simp add: stateChanged.simps map_of_fold_keyStep split: option.splits)

subsection \<open>Sequences\<close>

lemma upToLastStored_pad:
  "upToLastStored xs @ replicate (length xs - length (upToLastStored xs)) None = xs"
proof -
  let ?P = "\<lambda>x::'a option. x = None"
  have t: "takeWhile ?P (rev xs) = replicate (length (takeWhile ?P (rev xs))) None"
    by (rule replicate_length_same [symmetric]) (auto dest: set_takeWhileD)
  have "rev xs = takeWhile ?P (rev xs) @ dropWhile ?P (rev xs)" by simp
  then have "xs = rev (dropWhile ?P (rev xs)) @ rev (takeWhile ?P (rev xs))"
    by (metis rev_append rev_rev_ident)
  moreover have "rev (takeWhile ?P (rev xs)) = replicate (length (takeWhile ?P (rev xs))) None"
    using t by (metis rev_replicate)
  moreover have "length (takeWhile ?P (rev xs)) = length xs - length (upToLastStored xs)"
  proof -
    have "length (takeWhile ?P (rev xs)) + length (dropWhile ?P (rev xs)) = length xs"
      by (metis length_append length_rev takeWhile_dropWhile_id)
    then show ?thesis by (simp add: upToLastStored_def)
  qed
  ultimately show ?thesis by (simp add: upToLastStored_def)
qed

lemma upToLastStored_snoc_Some [simp]:
  "upToLastStored (xs @ [Some e]) = xs @ [Some e]"
  by (simp add: upToLastStored_def)

lemma upToLastStored_snoc_None [simp]:
  "upToLastStored (xs @ [None]) = upToLastStored xs"
  by (simp add: upToLastStored_def)

lemma length_upToLastStored: "length (upToLastStored xs) \<le> length xs"
  by (simp add: upToLastStored_def) (metis length_dropWhile_le length_rev)

lemma setIndex_upToLastStored:
  "setIndex (upToLastStored xs) (length xs) e = xs @ [Some e]"
proof -
  have "\<not> length xs < length (upToLastStored xs)"
    using length_upToLastStored [of xs] by simp
  then have "setIndex (upToLastStored xs) (length xs) e =
      (upToLastStored xs @ replicate (length xs - length (upToLastStored xs)) None) @ [Some e]"
    by (simp add: setIndex_def)
  then show ?thesis by (simp only: upToLastStored_pad)
qed

lemma upToLastStored_Nil_iff: "upToLastStored xs = [] \<longleftrightarrow> (\<forall>x\<in>set xs. x = None)"
  by (simp add: upToLastStored_def dropWhile_eq_Nil_conv)

lemma itemStep_spec_entry:
  "itemStep (Arr r ps) (Arr s cs) i acc =
     (case spec_entry (ps ! i) (getIndex cs i) of None \<Rightarrow> acc | Some e \<Rightarrow> setIndex acc i e)"
  by (simp add: itemStep.simps spec_entry_def Let_def split: option.splits)

lemma fold_itemStep:
  "n \<le> length ps \<Longrightarrow>
   fold (itemStep (Arr r ps) (Arr s cs)) [0..<n] [] =
     upToLastStored (map (\<lambda>i. spec_entry (ps ! i) (getIndex cs i)) [0..<n])"
proof (induction n)
  case 0
  show ?case by (simp add: upToLastStored_def)
next
  case (Suc n)
  let ?xs = "map (\<lambda>i. spec_entry (ps ! i) (getIndex cs i)) [0..<n]"
  have ih: "fold (itemStep (Arr r ps) (Arr s cs)) [0..<n] [] = upToLastStored ?xs"
    using Suc by simp
  have len: "length ?xs = n" by simp
  have step: "fold (itemStep (Arr r ps) (Arr s cs)) [0..<Suc n] [] =
      itemStep (Arr r ps) (Arr s cs) n (upToLastStored ?xs)"
    by (simp add: ih)
  show ?case
  proof (cases "spec_entry (ps ! n) (getIndex cs n)")
    case None
    then show ?thesis unfolding step by (simp add: itemStep_spec_entry)
  next
    case (Some e)
    have "setIndex (upToLastStored ?xs) n e = ?xs @ [Some e]"
      using setIndex_upToLastStored [of ?xs e] len by simp
    then show ?thesis using Some unfolding step by (simp add: itemStep_spec_entry)
  qed
qed

lemma keyEntry_arrays:
  assumes "getProp prev key = Arr r ps" and "getProp current key = Arr s cs"
  shows "keyEntry prev current key =
     (if length ps \<noteq> length cs then Some (Whole (Arr s cs))
      else if upToLastStored (spec_entries ps cs) = [] then None
      else Some (ArrayChanges (upToLastStored (spec_entries ps cs))))"
proof (cases "length ps = length cs")
  case True
  have "fold (itemStep (Arr r ps) (Arr s cs)) [0..<length ps] [] =
          upToLastStored (spec_entries ps cs)"
    unfolding spec_entries_def by (rule fold_itemStep) simp
  then show ?thesis
    using assms True by (simp add: keyEntry_def keyStep.simps Let_def)
next
  case False
  then show ?thesis
    using assms by (simp add: keyEntry_def keyStep.simps Let_def)
qed

text \<open>
  C3: let \<open>key\<close> be a key of \<open>current\<close> whose values in \<open>prev\<close> and in
  \<open>current\<close> are both sequences. If their lengths differ, the patch holds the
  sequence of \<open>current\<close> itself under \<open>key\<close>. If the lengths are equal, the
  elements are compared index by index: two records give their sub-patch when it is
  not empty, unequal elements give the new element, equal elements give the old one;
  the array of these entries is stored under \<open>key\<close> when an entry was stored at
  all, and otherwise \<open>key\<close> is not in the patch.
\<close>

theorem stateChanged_sequences:
  assumes "map_of current key = Some (Arr s cs)" and "getProp prev key = Arr r ps"
  shows "(length ps \<noteq> length cs \<longrightarrow>
            map_of (stateChanged prev current) key = Some (Whole (Arr s cs)))
       \<and> (length ps = length cs \<longrightarrow>
            map_of (stateChanged prev current) key =
              (if \<forall>e\<in>set (spec_entries ps cs). e = None then None
               else Some (ArrayChanges (upToLastStored (spec_entries ps cs)))))"
proof -
  from assms(1) have k: "key \<in> fst ` set current"
    by (metis domI dom_map_of_conv_image_fst)
  from assms(1) have c: "getProp current key = Arr s cs"
    by (simp add: getProp_def)
  show ?thesis
    using keyEntry_arrays [OF assms(2) c] k
    by (simp add: map_of_stateChanged upToLastStored_Nil_iff)
qed

theorem stateChanged_sequences_witness:
  "map_of (stateChanged [(''x'', Arr 1 [Some (Prim (Number 1)), Some (Prim (Number 2))])]
                        [(''x'', Arr 2 [Some (Prim (Number 1)), Some (Prim (Number 2)), Some (Prim (Number 3))])]) ''x''
     = Some (Whole (Arr 2 [Some (Prim (Number 1)), Some (Prim (Number 2)), Some (Prim (Number 3))]))
   \<and> map_of (stateChanged
        [(''x'', Arr 1 [Some (Obj 3 [(''a'', Prim (Number 1))]), Some (Obj 4 [(''a'', Prim (Number 2))]),
                        Some (Prim (Number 7)), Some (Prim (Number 8)), Some (Obj 7 [])])]
        [(''x'', Arr 2 [Some (Obj 5 [(''a'', Prim (Number 1))]), Some (Obj 6 [(''a'', Prim (Number 3))]),
                        Some (Prim (Number 7)), Some (Prim (Number 9)), Some (Obj 8 [])])]) ''x''
     = Some (ArrayChanges [None, Some (Changes [(''a'', Whole (Prim (Number 3)))]),
                           Some (Whole (Prim (Number 7))), Some (Whole (Prim (Number 9)))])"
proof -
  have a: "map_of [(''x'', Arr 2 [Some (Prim (Number 1)), Some (Prim (Number 2)), Some (Prim (Number 3))])] ''x''
             = Some (Arr 2 [Some (Prim (Number 1)), Some (Prim (Number 2)), Some (Prim (Number 3))])"
    by simp
  have b: "getProp [(''x'', Arr 1 [Some (Prim (Number 1)), Some (Prim (Number 2))])] ''x''
             = Arr 1 [Some (Prim (Number 1)), Some (Prim (Number 2))]"
    by (simp add: getProp_def)
  have c: "map_of [(''x'', Arr 2 [Some (Obj 5 [(''a'', Prim (Number 1))]), Some (Obj 6 [(''a'', Prim (Number 3))]),
                        Some (Prim (Number 7)), Some (Prim (Number 9)), Some (Obj 8 [])])] ''x''
             = Some (Arr 2 [Some (Obj 5 [(''a'', Prim (Number 1))]), Some (Obj 6 [(''a'', Prim (Number 3))]),
                        Some (Prim (Number 7)), Some (Prim (Number 9)), Some (Obj 8 [])])"
    by simp
  have d: "getProp [(''x'', Arr 1 [Some (Obj 3 [(''a'', Prim (Number 1))]), Some (Obj 4 [(''a'', Prim (Number 2))]),
                        Some (Prim (Number 7)), Some (Prim (Number 8)), Some (Obj 7 [])])] ''x''
             = Arr 1 [Some (Obj 3 [(''a'', Prim (Number 1))]), Some (Obj 4 [(''a'', Prim (Number 2))]),
                        Some (Prim (Number 7)), Some (Prim (Number 8)), Some (Obj 7 [])]"
    by (simp add: getProp_def)
  show ?thesis
    using stateChanged_sequences [OF a b] stateChanged_sequences [OF c d]
    by (simp add: spec_entries_def spec_entry_def getIndex_def stateChanged.simps keyStep.simps
          getProp_def upt_rec_numeral upToLastStored_def)
qed

subsection \<open>Unchanged sequences\<close>

text \<open>
  C1 fails on the code: with \<open>prev = current = {x: [1]}\<close> (the same array, or an
  equal copy of it) the patch is \<open>{x: [1]}\<close>, although nothing changed; likewise
  an unchanged \<open>{name: "John", hobbies: ["reading"]}\<close> gives
  \<open>{hobbies: ["reading"]}\<close>, the unchanged name being left out and the unchanged
  array reported. An equal primitive element is stored in \<open>arrayChanges\<close>, whose
  length is then positive, so the test that guards the assignment to \<open>changes\<close>
  succeeds.
\<close>

theorem stateChanged_unchanged_array_reported:
  "stateChanged [(''x'', Arr 1 [Some (Prim (Number 1))])] [(''x'', Arr 1 [Some (Prim (Number 1))])]
     = [(''x'', ArrayChanges [Some (Whole (Prim (Number 1)))])]
   \<and> stateChanged [(''x'', Arr 1 [Some (Prim (Number 1))])] [(''x'', Arr 2 [Some (Prim (Number 1))])]
     = [(''x'', ArrayChanges [Some (Whole (Prim (Number 1)))])]
   \<and> stateChanged
       [(''name'', Prim (String ''John'')), (''hobbies'', Arr 1 [Some (Prim (String ''reading''))])]
       [(''name'', Prim (String ''John'')), (''hobbies'', Arr 2 [Some (Prim (String ''reading''))])]
     = [(''hobbies'', ArrayChanges [Some (Whole (Prim (String ''reading'')))])]"
  by (simp add: stateChanged.simps keyStep.simps itemStep.simps getProp_def getIndex_def setIndex_def)

text \<open>
  C4 fails on the code for the same reason: whatever record \<open>r\<close> the patch applied
  to \<open>prev\<close> gives (any record whose array under \<open>x\<close>, if it has one, has no
  hole), the diff of \<open>r\<close> against \<open>current = {x: [1]}\<close> is not empty.
\<close>

theorem rediff_never_empty:
  assumes "None \<notin> set (elems (getProp r ''x''))"
  shows "stateChanged r [(''x'', Arr 2 [Some (Prim (Number 1))])] \<noteq> []"
proof -
  let ?cur = "[(''x'', Arr 2 [Some (Prim (Number 1))])]"
  have s: "stateChanged r ?cur = keyStep r ?cur ''x'' []"
    by (simp add: stateChanged.simps)
  have c: "getProp ?cur ''x'' = Arr 2 [Some (Prim (Number 1))]"
    by (simp add: getProp_def)
  show ?thesis
  proof (cases "getProp r ''x''")
    case (Prim p)
    then show ?thesis by (simp add: s keyStep.simps c)
  next
    case (Obj t fs)
    then show ?thesis by (simp add: s keyStep.simps c)
  next
    case (Arr t ps)
    show ?thesis
    proof (cases "length ps = 1")
      case False
      then show ?thesis using Arr by (simp add: s keyStep.simps c)
    next
      case True
      then obtain p where ps: "ps = [p]" by (cases ps) auto
      with assms Arr obtain v where p: "p = Some v" by (cases p) auto
      show ?thesis
        using Arr ps p
        by (simp add: s keyStep.simps c itemStep.simps getIndex_def setIndex_def Let_def)
    qed
  qed
qed

theorem rediff_never_empty_witness:
  "None \<notin> set (elems (getProp [(''x'', Arr 3 [Some (Prim (Number 1))])] ''x''))
   \<and> stateChanged [(''x'', Arr 3 [Some (Prim (Number 1))])] [(''x'', Arr 2 [Some (Prim (Number 1))])] \<noteq> []"
proof -
  have h: "None \<notin> set (elems (getProp [(''x'', Arr 3 [Some (Prim (Number 1))])] ''x''))"
    by (simp add: getProp_def)
  show ?thesis using h rediff_never_empty [OF h] by simp
qed

section \<open>Properties of \<open>throttle\<close>\<close>

lemmas sched_defs =
  throttle_def throttled_call_def throttled_fire_def setTimeout_def clearTimeout_def
  dueTimer_def Let_def

lemma throttled_call_func [simp]: "func (fst (throttled_call now p s)) = func s"
  by (cases "func s") (auto simp: throttled_call_def Let_def setTimeout_def clearTimeout_def split: option.splits prod.splits)

lemma throttled_call_delay [simp]: "delay (fst (throttled_call now p s)) = delay s"
  by (cases "func s") (auto simp: throttled_call_def Let_def setTimeout_def clearTimeout_def split: option.splits prod.splits)

lemma throttled_fire_func [simp]: "func (fst (throttled_fire now t s)) = func s"
  by (cases "func s") (auto simp: throttled_fire_def Let_def clearTimeout_def split: option.splits prod.splits)

lemma throttled_fire_delay [simp]: "delay (fst (throttled_fire now t s)) = delay s"
  by (cases "func s") (auto simp: throttled_fire_def Let_def clearTimeout_def split: option.splits prod.splits)

lemma throttled_run_const:
  "func (fst (throttled_run es s)) = func s \<and> delay (fst (throttled_run es s)) = delay s"
proof (induction es arbitrary: s)
  case Nil
  show ?case by simp
next
  case (Cons e es)
  have "func (fst (throttled_step e s)) = func s \<and> delay (fst (throttled_step e s)) = delay s"
    by (cases e) simp_all
  with Cons.IH [of "fst (throttled_step e s)"] show ?case
    by (simp add: split_beta)
qed

lemma throttled_run_append:
  "throttled_run (xs @ ys) s =
     (fst (throttled_run ys (fst (throttled_run xs s))),
      snd (throttled_run xs s) @ snd (throttled_run ys (fst (throttled_run xs s))))"
  by (induction xs arbitrary: s) (simp_all add: split_beta)

lemma throttled_call_owned: "owned s \<Longrightarrow> owned (fst (throttled_call now p s))"
  by (cases "func s") (auto simp: owned_def throttled_call_def Let_def setTimeout_def clearTimeout_def split: option.splits prod.splits)

lemma throttled_fire_owned: "owned s \<Longrightarrow> owned (fst (throttled_fire now t s))"
  by (cases "func s") (auto simp: owned_def throttled_fire_def Let_def clearTimeout_def split: option.splits prod.splits)

lemma throttled_step_owned: "owned s \<Longrightarrow> owned (fst (throttled_step e s))"
  by (cases e) (simp_all add: throttled_call_owned throttled_fire_owned)

lemma throttled_run_owned: "owned s \<Longrightarrow> owned (fst (throttled_run es s))"
proof (induction es arbitrary: s)
  case Nil
  then show ?case by simp
next
  case (Cons e es)
  from Cons.prems have "owned (fst (throttled_step e s))" by (rule throttled_step_owned)
  then have "owned (fst (throttled_run es (fst (throttled_step e s))))" by (rule Cons.IH)
  then show ?case by (simp add: split_beta Let_def)
qed

lemma throttle_owned: "throttle f d = Inr s \<Longrightarrow> owned s"
  by (auto simp: throttle_def owned_def)

lemma dueTimer_pending: "dueTimer now t s = Some p \<Longrightarrow> t \<in> fst ` set (pending s)"
  by (auto simp: dueTimer_def split: option.splits if_splits dest!: map_of_SomeD intro: rev_image_eqI)

lemma throttled_fire_spent:
  assumes "owned s" and "throttled_fire now t s = (s', [p], out)"
  shows "timer s' = Some t \<and> pending s' = [] \<and> last_time s' = now"
proof -
  from assms(2) obtain q where d: "dueTimer now t s = Some q"
    by (auto simp: throttled_fire_def split: option.splits)
  then have "t \<in> fst ` set (pending s)" by (rule dueTimer_pending)
  with assms(1) have tm: "timer s = Some t" by (auto simp: owned_def)
  with assms(1) have "filter (\<lambda>e. fst e \<noteq> t) (pending s) = []"
    by (auto simp: owned_def filter_empty_conv)
  with assms(2) d tm show ?thesis
    by (cases "func s") (auto simp: throttled_fire_def Let_def clearTimeout_def)
qed

lemma throttled_run_spent:
  assumes "timer s \<noteq> None" and "pending s = []" and "func s = Function f"
  shows "timer (fst (throttled_run es s)) = timer s
       \<and> pending (fst (throttled_run es s)) = []
       \<and> snd (throttled_run es s) = onTime (delay s) (last_time s) es"
  using assms
proof (induction es arbitrary: s)
  case Nil
  then show ?case by simp
next
  case (Cons e es)
  show ?case
  proof (cases e)
    case (Call now p)
    show ?thesis
    proof (cases "delay s - (now - last_time s) \<le> 0")
      case True
      let ?s1 = "fst (throttled_call now p s)"
      have st: "fst (snd (throttled_call now p s)) = [p]"
        and s1: "timer ?s1 = timer s" "pending ?s1 = []" "func ?s1 = Function f" "delay ?s1 = delay s" "last_time ?s1 = now"
        using Cons.prems True
        by (auto simp: throttled_call_def Let_def clearTimeout_def)
      from Cons.IH [of ?s1] s1 Cons.prems(1)
      have "timer (fst (throttled_run es ?s1)) = timer s
          \<and> pending (fst (throttled_run es ?s1)) = []
          \<and> snd (throttled_run es ?s1) = onTime (delay s) now es"
        by simp
      then show ?thesis using Call True st by (simp add: split_beta)
    next
      case False
      have st: "throttled_call now p s = (s, [], Returned (result s))"
        using Cons.prems False by (auto simp: throttled_call_def Let_def)
      from Cons.IH [of s] Cons.prems
      show ?thesis using Call False st by (simp add: split_beta)
    qed
  next
    case (Fire now t)
    have st: "throttled_fire now t s = (s, [], Returned None)"
      using Cons.prems by (simp add: throttled_fire_def dueTimer_def)
    from Cons.IH [of s] Cons.prems
    show ?thesis using Fire st by (simp add: split_beta)
  qed
qed

text \<open>
  C9: take a throttled function whose deferred timer has fired, executing \<open>func\<close>
  at clock reading \<open>now\<close>. Whatever calls and timer events follow, \<open>timer\<close> keeps
  the handle of that timer, no timer is armed again, and the executions of \<open>func\<close>
  are exactly the calls that arrive once \<open>delay\<close> has elapsed since the last
  execution, each run at once with its own arguments; every other call is dropped.
\<close>

theorem throttle_spent_timer:
  assumes "throttle (Function f) d = Inr s0"
      and "throttled_fire now t (fst (throttled_run es s0)) = (s, [p], out)"
  shows "timer (fst (throttled_run es' s)) = Some t
       \<and> pending (fst (throttled_run es' s)) = []
       \<and> snd (throttled_run es' s) = onTime d now es'"
proof -
  let ?s1 = "fst (throttled_run es s0)"
  from assms(1) have "owned s0" by (rule throttle_owned)
  then have o: "owned ?s1" by (rule throttled_run_owned)
  from throttled_fire_spent [OF o assms(2)]
  have sp: "timer s = Some t" "pending s = []" "last_time s = now" by simp_all
  have fs: "func s = Function f \<and> delay s = d" 
  proof -
    have "func s = func ?s1 \<and> delay s = delay ?s1"
      using throttled_fire_func [of now t ?s1] throttled_fire_delay [of now t ?s1] assms(2) by simp
    moreover have "func ?s1 = func s0 \<and> delay ?s1 = delay s0"
      by (rule throttled_run_const)
    ultimately show ?thesis using assms(1) by (auto simp: throttle_def)
  qed
  from throttled_run_spent [of s f es'] sp fs show ?thesis by simp
qed

theorem throttle_spent_timer_witness:
  "timer (fst (throttled_run [Call 1110 4, Call 1150 5, Fire 1300 1, Call 1200 6]
       \<lparr>pending = [], nextHandle = 2, func = Function Suc, timer = Some 1,
        result = Some (3::nat), delay = 100, last_time = 1100\<rparr>)) = Some 1
   \<and> snd (throttled_run [Call 1110 4, Call 1150 5, Fire 1300 1, Call 1200 6]
       \<lparr>pending = [], nextHandle = 2, func = Function Suc, timer = Some 1,
        result = Some (3::nat), delay = 100, last_time = 1100\<rparr>) = [6]"
proof -
  have a: "throttle (Function Suc) 100 =
      Inr \<lparr>pending = [], nextHandle = 1, func = Function Suc, timer = None,
        result = (None :: nat option), delay = 100, last_time = 0\<rparr>"
    by (simp add: throttle_def)
  have b: "throttled_fire 1100 1 (fst (throttled_run [Call 1000 1, Call 1010 2, Call 1020 3]
       \<lparr>pending = [], nextHandle = 1, func = Function Suc, timer = None,
        result = (None :: nat option), delay = 100, last_time = 0\<rparr>))
     = (\<lparr>pending = [], nextHandle = 2, func = Function Suc, timer = Some 1,
        result = Some (3::nat), delay = 100, last_time = 1100\<rparr>, [2], Returned None)"
    by (simp add: sched_defs)
  show ?thesis
    using throttle_spent_timer [OF a b, of "[Call 1110 4, Call 1150 5, Fire 1300 1, Call 1200 6]"]
    by simp
qed

text \<open>
  C2 fails on the code: with \<open>delay = 100\<close>, after a call at 1000 (executed), a
  call with argument 2 at 1010 (queued) and a call with argument 3 at 1020, the timer
  fires at 1100 and executes \<open>func\<close> with 2, the argument of the call that armed it,
  not with 3, the argument of the latest queued call; the executions of the whole
  run are those with 1 and with 2.
\<close>

theorem throttle_runs_first_queued_call:
  "fst (snd (throttled_fire 1100 1
      (fst (throttled_run [Call 1000 1, Call 1010 2, Call 1020 3]
         (projr (throttle (Function Suc) 100))))))
    = [2::nat]
   \<and> snd (throttled_run [Call 1000 1, Call 1010 2, Call 1020 3, Fire 1100 1]
         (projr (throttle (Function Suc) 100)))
    = [1, 2::nat]"
  by (simp add: sched_defs)

text \<open>
  C2 as amended: on a throttled function that has armed no timer yet, a call that
  arrives before \<open>delay\<close> has elapsed arms the one timer, with its own arguments;
  the calls that follow before \<open>delay\<close> has elapsed arm no second timer, record
  nothing and execute nothing; and the timer, when it fires, executes \<open>func\<close> once,
  with the arguments of the call that armed it.
\<close>

theorem throttle_queue:
  assumes "timer s = None" and "pending s = []" and "func s = Function f"
      and "0 < delay s - (now - last_time s)"
      and "\<forall>e\<in>set qs. case e of Call t q \<Rightarrow> 0 < delay s - (t - last_time s) | Fire t h \<Rightarrow> False"
      and "last_time s + delay s \<le> tf"
  shows "pending (fst (throttled_run (Call now p # qs) s)) = [(nextHandle s, last_time s + delay s, p)]
       \<and> snd (throttled_run (Call now p # qs) s) = []
       \<and> snd (throttled_run (Call now p # qs @ [Fire tf (nextHandle s)]) s) = [p]"
proof -
  let ?s1 = "fst (throttled_call now p s)"
  have s1: "pending ?s1 = [(nextHandle s, last_time s + delay s, p)]" "timer ?s1 = Some (nextHandle s)"
      "func ?s1 = Function f" "delay ?s1 = delay s" "last_time ?s1 = last_time s"
      "fst (snd (throttled_call now p s)) = []"
    using assms(1-4) by (simp_all add: throttled_call_def Let_def setTimeout_def)
  have q: "fst (throttled_run qs ?s1) = ?s1 \<and> snd (throttled_run qs ?s1) = []"
    using assms(5)
  proof (induction qs)
    case Nil
    show ?case by simp
  next
    case (Cons e qs)
    then obtain t q where e: "e = Call t q" and w: "0 < delay s - (t - last_time s)"
      by (cases e) auto
    have "throttled_call t q ?s1 = (?s1, [], Returned (result ?s1))"
      using s1 w by (simp add: throttled_call_def Let_def)
    with Cons e show ?case by (simp add: split_beta)
  qed
  have f: "fst (snd (throttled_fire tf (nextHandle s) ?s1)) = [p]"
    using s1 assms(6) by (simp add: throttled_fire_def dueTimer_def Let_def clearTimeout_def)
  have c: "fst (throttled_run (Call now p # qs) s) = ?s1 \<and> snd (throttled_run (Call now p # qs) s) = []"
    using q s1(6) by (simp add: split_beta)
  have "snd (throttled_run ((Call now p # qs) @ [Fire tf (nextHandle s)]) s) = [p]"
    unfolding throttled_run_append using c f by (simp add: split_beta)
  then show ?thesis using c s1(1) by simp
qed

theorem throttle_queue_witness:
  "snd (throttled_run [Call 1010 2, Call 1020 3, Call 1030 4, Fire 1100 1]
       \<lparr>pending = [], nextHandle = 1, func = Function Suc, timer = None,
        result = Some (2::nat), delay = 100, last_time = 1000\<rparr>) = [2]"
proof -
  let ?s = "\<lparr>pending = [], nextHandle = 1, func = Function Suc, timer = None,
        result = Some (2::nat), delay = 100, last_time = 1000\<rparr>"
  have "\<forall>e\<in>set [Call 1020 (3::nat), Call 1030 4].
          case e of Call t q \<Rightarrow> 0 < delay ?s - (t - last_time ?s) | Fire t h \<Rightarrow> False"
    by simp
  from throttle_queue [of ?s Suc 1010 "[Call 1020 3, Call 1030 4]" 1100 2, OF _ _ _ _ this]
  show ?thesis by simp
qed

text \<open>
  C7 fails on the code: with \<open>delay = 100\<close> and the last execution at 1000, a call
  at clock reading 990 executes nothing on its turn.
\<close>

theorem throttle_clock_skew_counterexample:
  "fst (snd (throttled_call 990 2
      (fst (throttled_run [Call 1000 1] (projr (throttle (Function Suc) 100))))))
    = ([] :: nat list)"
  by (simp add: sched_defs)

text \<open>
  C7 as amended: a call executes \<open>func\<close> on its turn exactly when
  \<open>delay - (now - last) \<le> 0\<close> (and \<open>func\<close> is a function). So, for
  \<open>delay \<ge> 0\<close>, a call with \<open>now - last < 0\<close> executes nothing on its turn: it
  arms the timer, due \<open>delay\<close> after the last execution, when no timer has been armed
  before, and changes nothing otherwise.
\<close>

theorem throttle_immediate_iff:
  "(fst (snd (throttled_call now p s)) = [p] \<longleftrightarrow> delay s - (now - last_time s) \<le> 0 \<and> func s \<noteq> NotCallable)
   \<and> (now - last_time s < 0 \<and> 0 \<le> delay s \<longrightarrow>
        fst (snd (throttled_call now p s)) = []
        \<and> (timer s \<noteq> None \<longrightarrow> fst (throttled_call now p s) = s)
        \<and> (timer s = None \<longrightarrow>
             pending (fst (throttled_call now p s)) = pending s @ [(nextHandle s, last_time s + delay s, p)]))"
  by (cases "func s") (auto simp: throttled_call_def Let_def setTimeout_def)

theorem throttle_immediate_iff_witness:
  "fst (snd (throttled_call 990 (2::nat)
       \<lparr>pending = [], nextHandle = 1, func = Function Suc, timer = None,
        result = Some (2::nat), delay = 100, last_time = 1000\<rparr>)) = []
   \<and> pending (fst (throttled_call 990 (2::nat)
       \<lparr>pending = [], nextHandle = 1, func = Function Suc, timer = None,
        result = Some (2::nat), delay = 100, last_time = 1000\<rparr>)) = [(1, 1100, 2)]
   \<and> fst (snd (throttled_call 1100 (2::nat)
       \<lparr>pending = [], nextHandle = 1, func = Function Suc, timer = None,
        result = Some (2::nat), delay = 100, last_time = 1000\<rparr>)) = [2]"
proof -
  let ?s = "\<lparr>pending = [], nextHandle = 1, func = Function Suc, timer = None,
        result = Some (2::nat), delay = 100, last_time = 1000\<rparr>"
  from throttle_immediate_iff [of 990 2 ?s] throttle_immediate_iff [of 1100 2 ?s]
  show ?thesis by simp
qed

section \<open>Properties of \<open>debounce\<close>\<close>

lemma debounced_run_append:
  "debounced_run (xs @ ys) s =
     (fst (debounced_run ys (fst (debounced_run xs s))),
      snd (debounced_run xs s) @ snd (debounced_run ys (fst (debounced_run xs s))))"
  by (induction xs arbitrary: s) (simp_all add: split_beta)

lemma debounced_step_const:
  "func (fst (debounced_step e s)) = func s \<and> wait (fst (debounced_step e s)) = wait s"
  by (cases e; cases "func s")
     (auto simp: debounced_call_def debounced_fire_def Let_def setTimeout_def clearTimeout_def
           split: option.splits prod.splits)

lemma debounced_run_const:
  "func (fst (debounced_run es s)) = func s \<and> wait (fst (debounced_run es s)) = wait s"
proof (induction es arbitrary: s)
  case Nil
  show ?case by simp
next
  case (Cons e es)
  from Cons.IH [of "fst (debounced_step e s)"] debounced_step_const [of e s]
  show ?case by (simp add: split_beta)
qed

lemma debounced_call_facts:
  assumes "latest c s"
  shows "fst (snd (debounced_call now p s)) = []"
    and "pending (fst (debounced_call now p s)) = [(nextHandle s, now + wait s, p)]"
    and "timer (fst (debounced_call now p s)) = Some (nextHandle s)"
    and "wait (fst (debounced_call now p s)) = wait s"
    and "func (fst (debounced_call now p s)) = func s"
    and "result (fst (debounced_call now p s)) = result s"
    and "nextHandle (fst (debounced_call now p s)) = Suc (nextHandle s)"
    and "snd (snd (debounced_call now p s)) = Returned (result s)"
  using assms
  by (auto simp: latest_def debounced_call_def Let_def setTimeout_def clearTimeout_def
           split: option.splits prod.splits)

lemma debounced_fire_facts:
  assumes "latest c s"
  shows "fst (snd (debounced_fire now t s)) = [] \<and> fst (debounced_fire now t s) = s
      \<or> (\<exists>tc p. c = Some (tc, p) \<and> tc + wait s \<le> now \<and> timer s = Some t
            \<and> func s \<noteq> NotCallable
            \<and> fst (snd (debounced_fire now t s)) = [p]
            \<and> pending (fst (debounced_fire now t s)) = [])
      \<or> (func s = NotCallable \<and> fst (snd (debounced_fire now t s)) = []
            \<and> pending (fst (debounced_fire now t s)) = [])"
  using assms
  by (cases "func s")
     (auto simp: latest_def debounced_fire_def dueTimer_def Let_def clearTimeout_def
           split: option.splits prod.splits if_splits)

lemma debounced_step_latest:
  "latest c s \<Longrightarrow> latest (lastCall c [e]) (fst (debounced_step e s))"
proof (cases e)
  case (Call now p)
  assume "latest c s"
  from debounced_call_facts(2,3,4) [OF this, of now p]
  show ?thesis using Call by (simp add: latest_def)
next
  case (Fire now t)
  assume l: "latest c s"
  from debounced_fire_facts [OF l, of now t]
  consider "fst (debounced_fire now t s) = s" | "pending (fst (debounced_fire now t s)) = []"
    by blast
  then show ?thesis
  proof cases
    case 1
    with l Fire show ?thesis by simp
  next
    case 2
    with Fire show ?thesis by (simp add: latest_def)
  qed
qed

lemma debounced_run_latest:
  "latest c s \<Longrightarrow> latest (lastCall c es) (fst (debounced_run es s))"
proof (induction es arbitrary: c s)
  case Nil
  then show ?case by simp
next
  case (Cons e es)
  from Cons.prems have "latest (lastCall c [e]) (fst (debounced_step e s))"
    by (rule debounced_step_latest)
  then have "latest (lastCall (lastCall c [e]) es) (fst (debounced_run es (fst (debounced_step e s))))"
    by (rule Cons.IH)
  moreover have "lastCall (lastCall c [e]) es = lastCall c (e # es)" by (cases e) simp_all
  ultimately show ?case by (simp add: split_beta)
qed

lemma debounce_latest: "debounce f w = Inr s0 \<Longrightarrow> latest None s0"
  by (auto simp: debounce_def latest_def)

lemma quiet_latest: "quiet t0 len c s \<Longrightarrow> latest c s"
  by (auto simp: quiet_def latest_def split: option.splits)

lemma debounced_step_quiet:
  assumes "quiet t0 len c s" and "len < wait s" and "t0 \<le> time e" and "time e \<le> t0 + len"
  shows "quiet t0 len (lastCall c [e]) (fst (debounced_step e s))
       \<and> fst (snd (debounced_step e s)) = []
       \<and> nextHandle (fst (debounced_step e s)) = nextHandle s + length (callArgs [e])"
proof (cases e)
  case (Call now p)
  from debounced_call_facts [OF quiet_latest [OF assms(1)], of now p] assms(3,4) Call
  show ?thesis by (simp add: quiet_def)
next
  case (Fire now t)
  have "dueTimer now t s = None"
    using assms Fire by (auto simp: quiet_def dueTimer_def split: option.splits if_splits)
  then have "debounced_fire now t s = (s, [], Returned None)"
    by (simp add: debounced_fire_def)
  with assms(1) Fire show ?thesis by simp
qed

lemma debounced_run_quiet:
  assumes "quiet t0 len c s" and "len < wait s" and "\<forall>e\<in>set es. t0 \<le> time e \<and> time e \<le> t0 + len"
  shows "quiet t0 len (lastCall c es) (fst (debounced_run es s))
       \<and> snd (debounced_run es s) = []
       \<and> nextHandle (fst (debounced_run es s)) = nextHandle s + length (callArgs es)"
  using assms
proof (induction es arbitrary: c s)
  case Nil
  then show ?case by simp
next
  case (Cons e es)
  let ?s1 = "fst (debounced_step e s)"
  have st: "quiet t0 len (lastCall c [e]) ?s1" "fst (snd (debounced_step e s)) = []"
      "nextHandle ?s1 = nextHandle s + length (callArgs [e])"
    using debounced_step_quiet [of t0 len c s e] Cons.prems by simp_all
  have w: "len < wait ?s1" using Cons.prems(2) debounced_step_const [of e s] by simp
  have "quiet t0 len (lastCall (lastCall c [e]) es) (fst (debounced_run es ?s1))
       \<and> snd (debounced_run es ?s1) = []
       \<and> nextHandle (fst (debounced_run es ?s1)) = nextHandle ?s1 + length (callArgs es)"
    using Cons.IH [OF st(1) w] Cons.prems(3) by simp
  moreover have "lastCall (lastCall c [e]) es = lastCall c (e # es)" by (cases e) simp_all
  moreover have "length (callArgs [e]) + length (callArgs es) = length (callArgs (e # es))"
    by (cases e) simp_all
  ultimately show ?case using st(2,3) by (simp add: split_beta)
qed

lemma lastCall_callArgs:
  "callArgs es \<noteq> [] \<Longrightarrow> \<exists>t. lastCall c es = Some (t, last (callArgs es))"
proof (induction es arbitrary: c)
  case Nil
  then show ?case by simp
next
  case (Cons e es)
  show ?case
  proof (cases "callArgs es = []")
    case True
    then have n: "lastCall c' es = c'" for c' :: "(int \<times> 'a) option"
    proof (induction es arbitrary: c')
      case Nil
      show ?case by simp
    next
      case (Cons x xs)
      then show ?case by (cases x) simp_all
    qed
    from Cons.prems True obtain now p where "e = Call now p" by (cases e) auto
    with True n show ?thesis by simp
  next
    case False
    from Cons.IH [OF False] show ?thesis using False by (cases e) simp_all
  qed
qed

lemma debounced_run_idle:
  "pending s = [] \<Longrightarrow> \<forall>e\<in>set fs. \<not> isCall e \<Longrightarrow> snd (debounced_run fs s) = [] \<and> fst (debounced_run fs s) = s"
proof (induction fs)
  case Nil
  show ?case by simp
next
  case (Cons e fs)
  then obtain now t where e: "e = Fire now t" by (cases e) auto
  have "debounced_fire now t s = (s, [], Returned None)"
    using Cons.prems(1) by (simp add: debounced_fire_def dueTimer_def)
  with Cons e show ?case by (simp add: split_beta)
qed

lemma debounce_burst:
  assumes "debounce (Function f) (Some ms) = Inr s0"
      and "\<forall>e\<in>set es. t0 \<le> time e \<and> time e \<le> t0 + len" and "len < ms"
      and "callArgs es \<noteq> []" and "lastCall None es = Some (tc, ac)" and "tc + ms \<le> tf"
      and "\<forall>e\<in>set fs. \<not> isCall e"
  shows "snd (debounced_run es s0) = []
       \<and> snd (debounced_run (es @ Fire tf (length (callArgs es)) # fs) s0) = [last (callArgs es)]"
proof -
  let ?s = "fst (debounced_run es s0)"
  from assms(1) have s0: "wait s0 = ms" "nextHandle s0 = 1" "func s0 = Function f" "quiet t0 len None s0"
    by (auto simp: debounce_def quiet_def)
  from debounced_run_quiet [OF s0(4) _ assms(2)] s0 assms(3)
  have q: "quiet t0 len (lastCall None es) ?s" and x: "snd (debounced_run es s0) = []"
    and n: "nextHandle ?s = Suc (length (callArgs es))"
    by simp_all
  from lastCall_callArgs [OF assms(4), of None] assms(5)
  have lc: "lastCall None es = Some (tc, last (callArgs es))"
    by auto
  with q n have p: "pending ?s = [(length (callArgs es), tc + wait ?s, last (callArgs es))]"
    by (auto simp: quiet_def)
  have c: "func ?s = Function f" "wait ?s = ms"
    using debounced_run_const [of es s0] s0 by simp_all
  let ?s' = "fst (debounced_fire tf (length (callArgs es)) ?s)"
  have f: "fst (snd (debounced_fire tf (length (callArgs es)) ?s)) = [last (callArgs es)]"
      "pending ?s' = []"
    using p c assms(6)
    by (simp_all add: debounced_fire_def dueTimer_def clearTimeout_def Let_def)
  from debounced_run_idle [OF f(2) assms(7)]
  have "snd (debounced_run (Fire tf (length (callArgs es)) # fs) ?s) = [last (callArgs es)]"
    using f(1) by (simp add: split_beta)
  then show ?thesis using x by (simp add: debounced_run_append)
qed

text \<open>
  C5: for a debounced function, after any history of calls and timer events: a call
  executes nothing on its turn and leaves exactly one timer armed, the one with its
  own arguments; a timer that fires executes \<open>func\<close> with the arguments of the
  latest call or does nothing. In particular, with \<open>wait = 100\<close>, when five calls
  (and any timer events) happen within 50 ms, nothing is executed during the burst,
  and once the timer of the fifth call has fired, 100 ms after that call or later,
  whatever timer events follow, \<open>func\<close> has been executed exactly once, with the
  arguments of the fifth call.
\<close>

theorem debounce_latest_call_only:
  assumes "debounce (Function f) w = Inr s0"
  shows "fst (snd (debounced_call now p (fst (debounced_run es s0)))) = []
       \<and> pending (fst (debounced_call now p (fst (debounced_run es s0))))
           = [(nextHandle (fst (debounced_run es s0)), now + wait s0, p)]
       \<and> (fst (snd (debounced_fire tf t (fst (debounced_run es s0)))) = []
          \<or> (\<exists>tc q. lastCall None es = Some (tc, q)
                \<and> fst (snd (debounced_fire tf t (fst (debounced_run es s0)))) = [q]))
       \<and> (w = Some 100 \<and> (\<forall>e\<in>set bs. t0 \<le> time e \<and> time e \<le> t0 + 50)
            \<and> callArgs bs = [a1, a2, a3, a4, a5] \<and> lastCall None bs = Some (t5, a5)
            \<and> t5 + 100 \<le> tf' \<and> (\<forall>e\<in>set fs. \<not> isCall e)
          \<longrightarrow> snd (debounced_run bs s0) = []
              \<and> snd (debounced_run (bs @ Fire tf' 5 # fs) s0) = [a5])"
proof -
  let ?s = "fst (debounced_run es s0)"
  from assms have "latest None s0" by (rule debounce_latest)
  then have l: "latest (lastCall None es) ?s" by (rule debounced_run_latest)
  have w: "wait ?s = wait s0" using debounced_run_const [of es s0] by simp
  have a: "fst (snd (debounced_call now p ?s)) = []"
    and b: "pending (fst (debounced_call now p ?s)) = [(nextHandle ?s, now + wait s0, p)]"
    using debounced_call_facts(1,2) [OF l, of now p] w by simp_all
  have c: "fst (snd (debounced_fire tf t ?s)) = []
          \<or> (\<exists>tc q. lastCall None es = Some (tc, q) \<and> fst (snd (debounced_fire tf t ?s)) = [q])"
    using debounced_fire_facts [OF l, of tf t] by blast
  have d: "snd (debounced_run bs s0) = [] \<and> snd (debounced_run (bs @ Fire tf' 5 # fs) s0) = [a5]"
    if h: "w = Some 100" "\<forall>e\<in>set bs. t0 \<le> time e \<and> time e \<le> t0 + 50"
          "callArgs bs = [a1, a2, a3, a4, a5]" "lastCall None bs = Some (t5, a5)"
          "t5 + 100 \<le> tf'" "\<forall>e\<in>set fs. \<not> isCall e"
  proof -
    from assms h(1) have i: "debounce (Function f) (Some 100) = Inr s0" by simp
    from h(3) have n: "callArgs bs \<noteq> []" by simp
    have "snd (debounced_run bs s0) = []
        \<and> snd (debounced_run (bs @ Fire tf' (length (callArgs bs)) # fs) s0) = [last (callArgs bs)]"
      using debounce_burst [OF i h(2) _ n h(4,5,6)] by simp
    moreover have "length (callArgs bs) = 5" "last (callArgs bs) = a5"
      using h(3) by simp_all
    ultimately show ?thesis by (simp only:)
  qed
  from a b c d show ?thesis by blast
qed

theorem debounce_latest_call_only_witness:
  "fst (snd (debounced_call 1020 (3::nat)
       (fst (debounced_run [Call 1000 1, Call 1010 2]
          \<lparr>pending = [], nextHandle = 1, func = Function Suc, timer = None,
           result = (None :: nat option), wait = 100\<rparr>)))) = []
   \<and> pending (fst (debounced_call 1020 (3::nat)
       (fst (debounced_run [Call 1000 1, Call 1010 2]
          \<lparr>pending = [], nextHandle = 1, func = Function Suc, timer = None,
           result = (None :: nat option), wait = 100\<rparr>)))) = [(3, 1120, 3)]
   \<and> fst (snd (debounced_fire 1200 2
       (fst (debounced_run [Call 1000 1, Call 1010 2]
          \<lparr>pending = [], nextHandle = 1, func = Function Suc, timer = None,
           result = (None :: nat option), wait = 100\<rparr>)))) = [2]
   \<and> snd (debounced_run [Call 1000 1, Call 1010 2, Fire 1015 1, Call 1020 3, Call 1030 4, Call 1050 5]
          \<lparr>pending = [], nextHandle = 1, func = Function Suc, timer = None,
           result = (None :: nat option), wait = 100\<rparr>) = []
   \<and> snd (debounced_run ([Call 1000 1, Call 1010 2, Fire 1015 1, Call 1020 3, Call 1030 4, Call 1050 5]
                          @ Fire 1150 5 # [Fire 1160 5])
          \<lparr>pending = [], nextHandle = 1, func = Function Suc, timer = None,
           result = (None :: nat option), wait = 100\<rparr>) = [5]"
proof -
  let ?s0 = "\<lparr>pending = [], nextHandle = 1, func = Function Suc, timer = None,
           result = (None :: nat option), wait = 100\<rparr>"
  have a: "debounce (Function Suc) (Some 100) = Inr ?s0"
    by (simp add: debounce_def)
  have b: "\<forall>e\<in>set [Call 1000 (1::nat), Call 1010 2, Fire 1015 1, Call 1020 3, Call 1030 4, Call 1050 5].
             1000 \<le> time e \<and> time e \<le> 1000 + 50"
    by simp
  have c: "\<forall>e\<in>set [Fire 1160 5 :: nat event]. \<not> isCall e" by simp
  from debounce_latest_call_only [OF a, of 1020 3 "[Call 1000 1, Call 1010 2]" 1200 2
       "[Call 1000 1, Call 1010 2, Fire 1015 1, Call 1020 3, Call 1030 4, Call 1050 5]"
       1000 1 2 3 4 5 1050 1150 "[Fire 1160 5]"] b c
  show ?thesis
    by (simp add: debounced_fire_def dueTimer_def debounced_call_def setTimeout_def clearTimeout_def Let_def)
qed

lemma debounced_run_result:
  "snd (debounced_run es s) = [] \<Longrightarrow> result (fst (debounced_run es s)) = result s"
proof (induction es arbitrary: s)
  case Nil
  show ?case by simp
next
  case (Cons e es)
  from Cons.prems have x: "fst (snd (debounced_step e s)) = []"
    and y: "snd (debounced_run es (fst (debounced_step e s))) = []"
    by (simp_all add: split_beta)
  have "result (fst (debounced_step e s)) = result s"
    using x 
    by (cases e; cases "func s")
       (auto simp: debounced_call_def debounced_fire_def Let_def setTimeout_def clearTimeout_def
             split: option.splits prod.splits)
  with Cons.IH [OF y] show ?case by (simp add: split_beta)
qed

text \<open>
  C10: as long as \<open>func\<close> has not been executed (in particular on the first
  call), a call of the debounced function returns \<open>undefined\<close>.
\<close>

theorem debounce_returns_undefined_first:
  assumes "debounce f w = Inr s0" and "snd (debounced_run es s0) = []"
  shows "snd (snd (debounced_call now p (fst (debounced_run es s0)))) = Returned None"
proof -
  from assms(1) have "result s0 = None" by (auto simp: debounce_def)
  with debounced_run_result [OF assms(2)] have "result (fst (debounced_run es s0)) = None" by simp
  then show ?thesis
    by (auto simp: debounced_call_def Let_def setTimeout_def clearTimeout_def split: option.splits prod.splits)
qed

theorem debounce_returns_undefined_first_witness:
  "snd (snd (debounced_call 1020 (3::nat)
       (fst (debounced_run [Call 1000 1, Call 1010 2, Fire 1050 2]
          \<lparr>pending = [], nextHandle = 1, func = Function Suc, timer = None,
           result = (None :: nat option), wait = 250\<rparr>)))) = Returned None
   \<and> snd (snd (debounced_call 1300 (3::nat)
       (fst (debounced_run [Call 1000 1, Call 1010 2, Fire 1260 2]
          \<lparr>pending = [], nextHandle = 1, func = Function Suc, timer = None,
           result = (None :: nat option), wait = 250\<rparr>)))) = Returned (Some 3)"
proof -
  let ?s0 = "\<lparr>pending = [], nextHandle = 1, func = Function Suc, timer = None,
           result = (None :: nat option), wait = 250\<rparr>"
  have a: "debounce (Function Suc) None = Inr ?s0"
    by (simp add: debounce_def)
  have b: "snd (debounced_run [Call 1000 1, Call 1010 2, Fire 1050 2] ?s0) = []"
    by (simp add: debounced_fire_def dueTimer_def debounced_call_def setTimeout_def clearTimeout_def Let_def)
  from debounce_returns_undefined_first [OF a b, of 1020 3]
  show ?thesis
    by (simp add: debounced_fire_def dueTimer_def debounced_call_def setTimeout_def clearTimeout_def Let_def)
qed

section \<open>The check of \<open>func\<close> at wrap time\<close>

text \<open>
  C8 fails on the code: \<open>debounce\<close> and \<open>throttle\<close> given a value that is not a
  function raise nothing at wrap time.
\<close>

theorem wrap_time_check_not_uniform:
  "debounce (NotCallable :: (nat, nat) jsfun) (Some 100) \<noteq> Inl TypeError
   \<and> throttle (NotCallable :: (nat, nat) jsfun) 100 \<noteq> Inl TypeError"
  by (simp add: debounce_def throttle_def)

text \<open>
  C8 as amended: \<open>debouncePress\<close> raises \<open>TypeError\<close> at wrap time exactly when
  \<open>func\<close> is not a function. \<open>debounce\<close> and \<open>throttle\<close> return a wrapper for
  every \<open>func\<close>; when \<open>func\<close> is not a function, the \<open>TypeError\<close> is raised by
  the call of the throttled wrapper that would execute \<open>func\<close> at once, and, for
  the debounced wrapper, whose call returns \<open>undefined\<close>, inside the callback of the
  timer.
\<close>

theorem wrap_time_check:
  "(debouncePress f w = Inl TypeError \<longleftrightarrow> \<not> isFunction f)
   \<and> (\<exists>s. debounce f w = Inr s) \<and> (\<exists>s. throttle f d = Inr s)
   \<and> (throttle NotCallable d = Inr ts \<and> delay ts - (now - last_time ts) \<le> 0
        \<longrightarrow> snd (snd (throttled_call now p ts)) = Threw TypeError)
   \<and> (debounce NotCallable w = Inr ds \<and> wait ds \<le> tf - now
        \<longrightarrow> snd (snd (debounced_call now p ds)) = Returned None
          \<and> snd (snd (debounced_fire tf 1 (fst (debounced_call now p ds)))) = Threw TypeError)"
  by (auto simp: debouncePress_def debounce_def throttle_def throttled_call_def debounced_call_def
        debounced_fire_def dueTimer_def setTimeout_def clearTimeout_def Let_def)

theorem wrap_time_check_witness:
  "debouncePress (NotCallable :: (nat, nat) jsfun) (Some 100) = Inl TypeError
   \<and> snd (snd (throttled_call 1000 (1::nat)
         \<lparr>pending = [], nextHandle = 1, func = (NotCallable :: (nat, nat) jsfun), timer = None,
          result = None, delay = 100, last_time = 0\<rparr>)) = Threw TypeError
   \<and> snd (snd (debounced_fire 1100 1 (fst (debounced_call 1000 (1::nat)
         \<lparr>pending = [], nextHandle = 1, func = (NotCallable :: (nat, nat) jsfun), timer = None,
          result = None, wait = 100\<rparr>)))) = Threw TypeError"
proof -
  let ?ts = "\<lparr>pending = [], nextHandle = 1, func = (NotCallable :: (nat, nat) jsfun), timer = None,
          result = None, delay = 100, last_time = 0\<rparr>"
  let ?ds = "\<lparr>pending = [], nextHandle = 1, func = (NotCallable :: (nat, nat) jsfun), timer = None,
          result = None, wait = 100\<rparr>"
  have a: "throttle (NotCallable :: (nat, nat) jsfun) 100 = Inr ?ts
           \<and> delay ?ts - (1000 - last_time ?ts) \<le> 0"
    by (simp add: throttle_def)
  have b: "debounce (NotCallable :: (nat, nat) jsfun) (Some 100) = Inr ?ds \<and> wait ?ds \<le> 1100 - 1000"
    by (simp add: debounce_def)
  from wrap_time_check [where f = "NotCallable :: (nat, nat) jsfun" and w = "Some 100" and d = 100
         and ts = ?ts and now = 1000 and p = 1 and ds = ?ds and tf = 1100] a b
  show ?thesis by simp
qed

end
